theory Spec2Isabelle
  imports Main "HOL-Library.Word" "HOL-Library.Signed_Division" "HOL-Library.Log_Nat"
begin

unbundle bit_operations_syntax

section \<open>Data model\<close>

text \<open>
  Go's \<open>byte\<close>, \<open>uint64\<close>, \<open>int32\<close>, \<open>int16\<close> and \<open>int64\<close> are words of the
  given width; signed types are read with \<open>sint\<close>.  Go's \<open>int\<close> (buffer lengths, byte
  counts) is modelled as \<open>int\<close>: every \<open>int\<close> the codec computes is a buffer length
  plus or minus a 32-bit quantity, which cannot overflow a 64-bit \<open>int\<close>.
\<close>

type_synonym byte = "8 word"
type_synonym uint64 = "64 word"
type_synonym int64 = "64 word"
type_synonym int32 = "32 word"
type_synonym int16 = "16 word"

text \<open>The sentinel errors of \<open>types.go\<close> and of its variant with a string-specific sentinel.\<close>

datatype error = errBufTooSmall | errValueTooLarge | errStringTooLong

definition cbits :: nat where
  "cbits = 7"

definition msb :: "'a::len word" where
  "msb = push_bit cbits 1"

definition cmask :: "'a::len word" where
  "cmask = msb - 1"

definition maxIntBytes :: int where
  "maxIntBytes = 5"

definition maxLongBytes :: int where
  "maxLongBytes = 10"

section \<open>VarInt and VarLong (types.go)\<close>

text \<open>
  The loop of \<open>getVarN\<close>: \<open>Some (v, n)\<close> when the loop returns from inside its body,
  \<open>None\<close> when the loop condition fails.
\<close>

function getVarN_loop :: "byte list \<Rightarrow> int \<Rightarrow> nat \<Rightarrow> uint64 \<Rightarrow> (uint64 \<times> int) option" where
  "getVarN_loop buf maxBytes i v =
     (if i < length buf \<and> int i < maxBytes then
        let v' = v OR push_bit (i * cbits) (ucast (buf ! i AND cmask)) in
        if buf ! i AND msb = 0 then Some (v', int i + 1)
        else getVarN_loop buf maxBytes (Suc i) v'
      else None)"
  by pat_completeness auto
termination
  by (relation "measure (\<lambda>(buf, maxBytes, i, v). length buf - i)") auto

declare getVarN_loop.simps [simp del]

definition getVarN :: "byte list \<Rightarrow> int \<Rightarrow> uint64 \<times> int \<times> error option" where
  "getVarN buf maxBytes =
     (case getVarN_loop buf maxBytes 0 0 of
        Some (v, n) \<Rightarrow> (v, n, None)
      | None \<Rightarrow>
          if int (length buf) < maxBytes then (0, int (length buf), Some errBufTooSmall)
          else (0, maxBytes, Some errValueTooLarge))"

definition getVarInt :: "byte list \<Rightarrow> int32 \<times> int \<times> error option" where
  "getVarInt buf = (case getVarN buf maxIntBytes of (v, n, err) \<Rightarrow> (ucast v, n, err))"

definition getVarLong :: "byte list \<Rightarrow> int64 \<times> int \<times> error option" where
  "getVarLong buf = (case getVarN buf maxLongBytes of (v, n, err) \<Rightarrow> (v, n, err))"

text \<open>
  \<open>putVarN\<close> writes into the caller's buffer; the model returns the buffer as the
  call leaves it, also when it fails.
\<close>

function putVarN_loop :: "byte list \<Rightarrow> uint64 \<Rightarrow> int \<Rightarrow> nat \<Rightarrow> byte list \<times> int option" where
  "putVarN_loop buf v maxBytes i =
     (if i < length buf \<and> int i < maxBytes then
        if v AND NOT cmask = 0 then (buf[i := ucast v], Some (int i + 1))
        else putVarN_loop (buf[i := ucast (v OR msb)]) (drop_bit cbits v) maxBytes (Suc i)
      else (buf, None))"
  by pat_completeness auto
termination
  by (relation "measure (\<lambda>(buf, v, maxBytes, i). length buf - i)") auto

declare putVarN_loop.simps [simp del]

definition putVarN :: "byte list \<Rightarrow> uint64 \<Rightarrow> int \<Rightarrow> byte list \<times> int \<times> error option" where
  "putVarN buf v maxBytes =
     (case putVarN_loop buf v maxBytes 0 of
        (buf', Some n) \<Rightarrow> (buf', n, None)
      | (buf', None) \<Rightarrow>
          if int (length buf') < maxBytes then (buf', int (length buf'), Some errBufTooSmall)
          else (buf', maxBytes, Some errValueTooLarge))"

definition putVarInt :: "byte list \<Rightarrow> int32 \<Rightarrow> byte list \<times> int \<times> error option" where
  "putVarInt buf v = putVarN buf (ucast v) maxIntBytes"

definition putVarLong :: "byte list \<Rightarrow> int64 \<Rightarrow> byte list \<times> int \<times> error option" where
  "putVarLong buf v = putVarN buf v maxLongBytes"

text \<open>
  \<open>bits.Len64\<close> of the Go standard library: the number of bits needed to represent
  its argument, 0 for 0.
\<close>

fun bit_len :: "nat \<Rightarrow> nat" where
  "bit_len n = (if n = 0 then 0 else Suc (bit_len (n div 2)))"

declare bit_len.simps [simp del]

definition Len64 :: "uint64 \<Rightarrow> int" where
  "Len64 v = int (bit_len (unat v))"

text \<open>Go's integer division truncates towards zero: \<open>sdiv\<close>, not \<open>div\<close>.\<close>

definition lenVarN :: "uint64 \<Rightarrow> int" where
  "lenVarN v = 1 + ((Len64 v - 1) sdiv int cbits)"

definition lenVarInt :: "int32 \<Rightarrow> int" where
  "lenVarInt v = lenVarN (ucast v)"

definition lenVarLong :: "int64 \<Rightarrow> int" where
  "lenVarLong v = lenVarN v"

section \<open>The decoder of varint.go\<close>

text \<open>
  \<open>varint.go\<close> declares \<open>getVarN\<close> again; it differs from the one of \<open>types.go\<close> in
  the byte count returned with \<open>errBufTooSmall\<close>.  Its loop is the same.
\<close>

definition varint_getVarN :: "byte list \<Rightarrow> int \<Rightarrow> uint64 \<times> int \<times> error option" where
  "varint_getVarN buf maxBytes =
     (case getVarN_loop buf maxBytes 0 0 of
        Some (v, n) \<Rightarrow> (v, n, None)
      | None \<Rightarrow>
          if int (length buf) < maxBytes then (0, maxBytes, Some errBufTooSmall)
          else (0, maxBytes, Some errValueTooLarge))"


section \<open>Panics, slices and the constants of package math\<close>

text \<open>
  A function that can panic at run time returns an \<open>outcome\<close>.  The slice expression
  \<open>buf[lo:hi]\<close> panics unless \<open>0 \<le> lo \<le> hi \<le> cap(buf)\<close>; every slice expression of
  the codec is taken of a buffer whose capacity is not known, so the bound used is its length.
\<close>

datatype 'a outcome = Return 'a | Panic

definition slice_of :: "'a list \<Rightarrow> int \<Rightarrow> int \<Rightarrow> 'a list outcome" where
  "slice_of buf lo hi =
     (if 0 \<le> lo \<and> lo \<le> hi \<and> hi \<le> int (length buf)
      then Return (take (nat (hi - lo)) (drop (nat lo) buf))
      else Panic)"

definition MaxInt16 :: int where
  "MaxInt16 = 32767"

definition MaxInt32 :: int where
  "MaxInt32 = 2147483647"

text \<open>
  \<open>copy(buf[n:], src)\<close> for \<open>n \<le> len(buf)\<close>: copies as many bytes as fit and returns the
  buffer and their number.
\<close>

definition copy_at :: "byte list \<Rightarrow> nat \<Rightarrow> byte list \<Rightarrow> byte list \<times> int" where
  "copy_at buf n src =
     (let m = min (length buf - n) (length src)
      in (take n buf @ take m src @ drop (n + m) buf, int m))"

section \<open>Strings (types.go)\<close>

text \<open>A Go string is a sequence of bytes; \<open>len\<close> counts bytes.\<close>

type_synonym gostring = "byte list"

definition getString :: "byte list \<Rightarrow> (gostring \<times> int \<times> error option) outcome" where
  "getString buf =
     (case getVarInt buf of (length', m, err) \<Rightarrow>
        let n = 0 + m in
        if err \<noteq> None then Return ([], n, err)
        else if sint length' > MaxInt16 then Return ([], n, Some errValueTooLarge)
        else if int (length buf) < n + sint length' then Return ([], n, Some errBufTooSmall)
        else case slice_of buf n (n + sint length') of
               Panic \<Rightarrow> Panic
             | Return s \<Rightarrow> Return (s, n + sint length', None))"

text \<open>
  After a successful \<open>putVarInt\<close> the count \<open>n\<close> is at most \<open>len(buf)\<close>, so \<open>buf[n:]\<close>
  cannot panic in \<open>putString\<close> and \<open>putPacket\<close>.
\<close>

definition putString :: "byte list \<Rightarrow> gostring \<Rightarrow> byte list \<times> int \<times> error option" where
  "putString buf s =
     (let length' = int (length s) in
      if length' > MaxInt16 then (buf, 0, Some errValueTooLarge)
      else case putVarInt buf (word_of_int length') of (buf1, m, err) \<Rightarrow>
        let n = 0 + m in
        if err \<noteq> None then (buf1, n, err)
        else case copy_at buf1 (nat n) s of (buf2, m) \<Rightarrow>
          let n = n + m in
          if m < int (length s) then (buf2, n, Some errBufTooSmall)
          else (buf2, n, None))"

section \<open>Strings (the variant with errStringTooLong)\<close>

text \<open>
  A second declaration of \<open>getString\<close> and \<open>putString\<close>, in the file that also declares
  the sentinel \<open>errStringTooLong\<close>, returns that sentinel for an over-long string.
\<close>

definition part000_getString :: "byte list \<Rightarrow> (gostring \<times> int \<times> error option) outcome" where
  "part000_getString buf =
     (case getVarInt buf of (length', m, err) \<Rightarrow>
        let n = 0 + m in
        if err \<noteq> None then Return ([], n, err)
        else if sint length' > MaxInt16 then Return ([], n, Some errStringTooLong)
        else if int (length buf) < n + sint length' then Return ([], n, Some errBufTooSmall)
        else case slice_of buf n (n + sint length') of
               Panic \<Rightarrow> Panic
             | Return s \<Rightarrow> Return (s, n + sint length', None))"

definition part000_putString :: "byte list \<Rightarrow> gostring \<Rightarrow> byte list \<times> int \<times> error option" where
  "part000_putString buf s =
     (let length' = int (length s) in
      if length' > MaxInt16 then (buf, 0, Some errStringTooLong)
      else case putVarInt buf (word_of_int length') of (buf1, m, err) \<Rightarrow>
        let n = 0 + m in
        if err \<noteq> None then (buf1, n, err)
        else case copy_at buf1 (nat n) s of (buf2, m) \<Rightarrow>
          let n = n + m in
          if m < int (length s) then (buf2, n, Some errBufTooSmall)
          else (buf2, n, None))"

section \<open>Positions (types.go)\<close>

text \<open>The fields \<open>x\<close>, \<open>y\<close>, \<open>z\<close> of the struct \<open>position\<close>.\<close>

record position =
  pos_x :: int32
  pos_y :: int16
  pos_z :: int32

definition positionLen :: int where
  "positionLen = 8"

text \<open>
  \<open>size\<close> and \<open>offset\<close> are of Go's type \<open>uint\<close>: the shift counts are computed with
  wrap-around, and a shift by 64 or more gives 0 (or the sign, for the arithmetic shift),
  as \<open>push_bit\<close>, \<open>drop_bit\<close> and \<open>signed_drop_bit\<close> on words do.
\<close>

definition getField :: "uint64 \<Rightarrow> uint64 \<Rightarrow> uint64 \<Rightarrow> int64" where
  "getField n size' offset =
     signed_drop_bit (unat (64 - size')) (push_bit (unat (64 - (size' + offset))) n)"

definition putField :: "int64 \<Rightarrow> uint64 \<Rightarrow> uint64 \<Rightarrow> uint64" where
  "putField n size' offset =
     drop_bit (unat (64 - (size' + offset))) (push_bit (unat (64 - size')) n)"

text \<open>
  \<open>binary.BigEndian.Uint64\<close> and \<open>PutUint64\<close> of the Go standard library; both are
  called with at least 8 bytes only.
\<close>

definition Uint64 :: "byte list \<Rightarrow> uint64" where
  "Uint64 b =
     ucast (b ! 7) OR push_bit 8 (ucast (b ! 6)) OR push_bit 16 (ucast (b ! 5)) OR
     push_bit 24 (ucast (b ! 4)) OR push_bit 32 (ucast (b ! 3)) OR push_bit 40 (ucast (b ! 2)) OR
     push_bit 48 (ucast (b ! 1)) OR push_bit 56 (ucast (b ! 0))"

definition PutUint64 :: "byte list \<Rightarrow> uint64 \<Rightarrow> byte list" where
  "PutUint64 b v =
     b[0 := ucast (drop_bit 56 v), 1 := ucast (drop_bit 48 v), 2 := ucast (drop_bit 40 v),
       3 := ucast (drop_bit 32 v), 4 := ucast (drop_bit 24 v), 5 := ucast (drop_bit 16 v),
       6 := ucast (drop_bit 8 v), 7 := ucast v]"

definition getPosition :: "byte list \<Rightarrow> position \<times> int \<times> error option" where
  "getPosition buf =
     (if int (length buf) < positionLen
      then (\<lparr>pos_x = 0, pos_y = 0, pos_z = 0\<rparr>, int (length buf), Some errBufTooSmall)
      else let v = Uint64 buf in
        (\<lparr>pos_x = ucast (getField v 26 38), pos_y = ucast (getField v 12 26),
          pos_z = ucast (getField v 26 0)\<rparr>,
         positionLen, None))"

definition putPosition :: "byte list \<Rightarrow> position \<Rightarrow> byte list \<times> int \<times> error option" where
  "putPosition buf p =
     (if int (length buf) < positionLen then (buf, int (length buf), Some errBufTooSmall)
      else let v = 0;
               v = v OR putField (scast (pos_x p)) 26 38;
               v = v OR putField (scast (pos_y p)) 12 26;
               v = v OR putField (scast (pos_z p)) 26 0
           in (PutUint64 buf v, positionLen, None))"

section \<open>Specification-level reading of a position\<close>

text \<open>
  The big-endian value of a byte sequence, and the two's-complement reading of the low
  \<open>w\<close> bits of a number.
\<close>

definition big_endian :: "byte list \<Rightarrow> int" where
  "big_endian bs = foldl (\<lambda>a b. 256 * a + uint b) 0 bs"

definition bits_of :: "int \<Rightarrow> nat \<Rightarrow> nat \<Rightarrow> int" where
  "bits_of v hi lo = (v div 2 ^ lo) mod 2 ^ (hi + 1 - lo)"

definition sign_extend :: "nat \<Rightarrow> int \<Rightarrow> int" where
  "sign_extend w u = (if u mod 2 ^ w < 2 ^ (w - 1) then u mod 2 ^ w else u mod 2 ^ w - 2 ^ w)"

section \<open>Packets (types.go)\<close>

text \<open>
  \<open>getPacket\<close> allocates the payload it returns, and a claim is about that payload not
  sharing memory with the input buffer.  So the decoder runs on a store: a heap of byte
  arrays, allocated in order, and slices that name an array, an offset and a length.
  The encoder reads its packet's payload as a value.
\<close>

type_synonym heap = "byte list list"

record slice =
  sl_arr :: nat
  sl_off :: nat
  sl_len :: nat

definition valid :: "heap \<Rightarrow> slice \<Rightarrow> bool" where
  "valid h s \<longleftrightarrow> sl_arr s < length h \<and> sl_off s + sl_len s \<le> length (h ! sl_arr s)"

definition contents :: "heap \<Rightarrow> slice \<Rightarrow> byte list" where
  "contents h s = take (sl_len s) (drop (sl_off s) (h ! sl_arr s))"

text \<open>The assignment \<open>s[i] = b\<close>, for \<open>i < len(s)\<close>.\<close>

definition store :: "heap \<Rightarrow> slice \<Rightarrow> nat \<Rightarrow> byte \<Rightarrow> heap" where
  "store h s i b = h[sl_arr s := (h ! sl_arr s)[sl_off s + i := b]]"

text \<open>\<open>make([]byte, l)\<close>: a new zeroed array; it panics when \<open>l\<close> is negative.\<close>

definition make_slice :: "heap \<Rightarrow> int \<Rightarrow> (heap \<times> slice) outcome" where
  "make_slice h l =
     (if l < 0 then Panic
      else Return (h @ [replicate (nat l) 0], \<lparr>sl_arr = length h, sl_off = 0, sl_len = nat l\<rparr>))"

text \<open>\<open>copy(dst, src)\<close> into a slice of the heap.\<close>

definition copy_to :: "heap \<Rightarrow> slice \<Rightarrow> byte list \<Rightarrow> heap \<times> int" where
  "copy_to h dst src =
     (let m = min (sl_len dst) (length src); a = h ! sl_arr dst
      in (h[sl_arr dst := take (sl_off dst) a @ take m src @ drop (sl_off dst + m) a], int m))"

text \<open>
  The struct \<open>packet\<close> with its fields \<open>id\<close> and \<open>data\<close>; the payload is a slice of the
  heap for the decoder and a byte sequence for the encoder.
\<close>

record 'd packet =
  pkt_id :: int32
  pkt_data :: 'd

definition nil_slice :: slice where
  "nil_slice = \<lparr>sl_arr = 0, sl_off = 0, sl_len = 0\<rparr>"

definition getPacket :: "heap \<Rightarrow> slice \<Rightarrow> (heap \<times> slice packet \<times> int \<times> error option) outcome" where
  "getPacket h buf =
     (let bs = contents h buf in
      case getVarInt bs of (length', m, err) \<Rightarrow>
        let n = 0 + m in
        if err \<noteq> None then Return (h, \<lparr>pkt_id = 0, pkt_data = nil_slice\<rparr>, n, err)
        else case getVarInt (drop (nat n) bs) of (id', m, err) \<Rightarrow>
          let n = n + m in
          if err \<noteq> None then Return (h, \<lparr>pkt_id = 0, pkt_data = nil_slice\<rparr>, n, err)
          else let l = sint length' - m in
            if int (sl_len buf) < n + l
            then Return (h, \<lparr>pkt_id = 0, pkt_data = nil_slice\<rparr>, n, Some errBufTooSmall)
            else case make_slice h l of
                   Panic \<Rightarrow> Panic
                 | Return (h1, data') \<Rightarrow>
                     (case slice_of bs n (n + l) of
                        Panic \<Rightarrow> Panic
                      | Return src \<Rightarrow>
                          (case copy_to h1 data' src of (h2, c) \<Rightarrow>
                             Return (h2, \<lparr>pkt_id = id', pkt_data = data'\<rparr>, n + c, None))))"

definition putPacket :: "byte list \<Rightarrow> byte list packet \<Rightarrow> byte list \<times> int \<times> error option" where
  "putPacket buf p =
     (let length' = lenVarInt (pkt_id p) + int (length (pkt_data p)) in
      if length' > MaxInt32 then (buf, 0, Some errValueTooLarge)
      else case putVarInt buf (word_of_int length') of (buf1, m, err) \<Rightarrow>
        let n = 0 + m in
        if err \<noteq> None then (buf1, n, err)
        else case putVarInt (drop (nat n) buf1) (pkt_id p) of (tail2, m, err) \<Rightarrow>
          let buf2 = take (nat n) buf1 @ tail2; n = n + m in
          if err \<noteq> None then (buf2, n, err)
          else case copy_at buf2 (nat n) (pkt_data p) of (buf3, m) \<Rightarrow>
            let n = n + m in
            if m < int (length (pkt_data p)) then (buf3, n, Some errBufTooSmall)
            else (buf3, n, None))"

text \<open>The bytes of the VarInt of a value: what \<open>putVarInt\<close> writes into a fresh buffer.\<close>

definition VarInt :: "int32 \<Rightarrow> byte list" where
  "VarInt v = (case putVarInt (replicate 5 0) v of (buf, n, err) \<Rightarrow> take (nat n) buf)"

section \<open>Specification-level size of an encoding\<close>

text \<open>
  The specification's size formula \<open>1 + (bit_length(u) - 1) / 7\<close>, with the bit length
  of 0 taken to be 1.  The bit length of a positive number is \<open>floorlog 2\<close>, one more
  than the position of its highest set bit.
\<close>

definition spec_bit_length :: "nat \<Rightarrow> nat" where
  "spec_bit_length n = (if n = 0 then 1 else floorlog 2 n)"

definition spec_size :: "nat \<Rightarrow> int" where
  "spec_size u = 1 + (int (spec_bit_length u) - 1) div 7"

section \<open>The error returns of the decoders\<close>

lemma msb_byte_iff: "(b :: byte) AND msb = 0 \<longleftrightarrow> \<not> bit b 7"
  using and_exp_eq_0_iff_not_bit [of b 7] by (simp add: msb_def cbits_def)

lemma getVarN_loop_None_iff:
  "getVarN_loop buf mb i v = None \<longleftrightarrow>
     (\<forall>j. i \<le> j \<and> j < length buf \<and> int j < mb \<longrightarrow> bit (buf ! j) 7)"
proof (induction buf mb i v rule: getVarN_loop.induct)
  case (1 buf mb i v)
  show ?case
  proof (cases "i < length buf \<and> int i < mb")
    case False
    then show ?thesis
      by (subst getVarN_loop.simps) auto
  next
    case inrange: True
    show ?thesis
    proof (cases "bit (buf ! i) 7")
      case False
      with inrange show ?thesis
        by (subst getVarN_loop.simps) (auto simp: msb_byte_iff Let_def)
    next
      case True
      with inrange have "getVarN_loop buf mb i v = None \<longleftrightarrow>
          (\<forall>j. Suc i \<le> j \<and> j < length buf \<and> int j < mb \<longrightarrow> bit (buf ! j) 7)"
        using "1.IH" by (subst getVarN_loop.simps) (simp add: msb_byte_iff Let_def)
      also have "\<dots> \<longleftrightarrow> (\<forall>j. i \<le> j \<and> j < length buf \<and> int j < mb \<longrightarrow> bit (buf ! j) 7)"
        using True by (metis Suc_leI le_neq_implies_less Suc_leD)
      finally show ?thesis .
    qed
  qed
qed

lemma all_take_iff:
  "(\<forall>b \<in> set (take (nat mb) buf). P b) \<longleftrightarrow>
     (\<forall>j. j < length buf \<and> int j < mb \<longrightarrow> P (buf ! j))"
proof
  assume L: "\<forall>b \<in> set (take (nat mb) buf). P b"
  show "\<forall>j. j < length buf \<and> int j < mb \<longrightarrow> P (buf ! j)"
  proof (intro allI impI)
    fix j assume "j < length buf \<and> int j < mb"
    then have "j < length (take (nat mb) buf)" by auto
    then have "take (nat mb) buf ! j \<in> set (take (nat mb) buf)" by (rule nth_mem)
    moreover have "take (nat mb) buf ! j = buf ! j"
      using \<open>j < length buf \<and> int j < mb\<close> by auto
    ultimately show "P (buf ! j)" using L by auto
  qed
next
  assume R: "\<forall>j. j < length buf \<and> int j < mb \<longrightarrow> P (buf ! j)"
  show "\<forall>b \<in> set (take (nat mb) buf). P b"
  proof
    fix b assume "b \<in> set (take (nat mb) buf)"
    then obtain j where j: "j < length (take (nat mb) buf)" "b = take (nat mb) buf ! j"
      by (auto simp: in_set_conv_nth)
    then have "j < length buf \<and> int j < mb" by auto
    with R j show "P b" by auto
  qed
qed

lemma getVarN_loop_None_take:
  "getVarN_loop buf mb 0 v = None \<longleftrightarrow> (\<forall>b \<in> set (take (nat mb) buf). bit b 7)"
  by (simp add: getVarN_loop_None_iff all_take_iff)

lemma getVarN_err_small:
  "snd (snd (getVarN buf mb)) = Some errBufTooSmall \<longleftrightarrow>
     int (length buf) < mb \<and> (\<forall>b \<in> set buf. bit b 7)"
  by (cases "getVarN_loop buf mb 0 0")
     (use getVarN_loop_None_take [of buf mb 0] in \<open>auto simp: getVarN_def\<close>)

lemma getVarN_err_large:
  "snd (snd (getVarN buf mb)) = Some errValueTooLarge \<longleftrightarrow>
     mb \<le> int (length buf) \<and> (\<forall>b \<in> set (take (nat mb) buf). bit b 7)"
  by (cases "getVarN_loop buf mb 0 0")
     (use getVarN_loop_None_take [of buf mb 0] in \<open>auto simp: getVarN_def\<close>)

lemma getVarN_err_n:
  "snd (snd (getVarN buf mb)) = Some e \<Longrightarrow>
     fst (snd (getVarN buf mb)) = (if e = errBufTooSmall then int (length buf) else mb)"
  by (auto simp: getVarN_def split: option.splits if_splits)


lemma getVarN_small_iff:
  "(\<exists>v n. getVarN buf mb = (v, n, Some errBufTooSmall)) \<longleftrightarrow>
     int (length buf) < mb \<and> (\<forall>b \<in> set buf. bit b 7)"
  using getVarN_err_small [of buf mb] by (cases "getVarN buf mb") auto

lemma getVarN_large_iff:
  "(\<exists>v n. getVarN buf mb = (v, n, Some errValueTooLarge)) \<longleftrightarrow>
     mb \<le> int (length buf) \<and> (\<forall>b \<in> set (take (nat mb) buf). bit b 7)"
  using getVarN_err_large [of buf mb] by (cases "getVarN buf mb") auto

lemma getVarN_small_n:
  "getVarN buf mb = (v, n, Some errBufTooSmall) \<Longrightarrow> n = int (length buf)"
  using getVarN_err_n [of buf mb errBufTooSmall] by simp

lemma getVarN_large_n:
  "getVarN buf mb = (v, n, Some errValueTooLarge) \<Longrightarrow> n = mb"
  using getVarN_err_n [of buf mb errValueTooLarge] by simp

lemma getVarInt_err_iff:
  "(\<exists>v n. getVarInt buf = (v, n, Some e)) \<longleftrightarrow> (\<exists>v n. getVarN buf 5 = (v, n, Some e))"
  by (cases "getVarN buf 5") (auto simp: getVarInt_def maxIntBytes_def)

lemma getVarInt_err_n:
  "getVarInt buf = (v, n, Some e) \<Longrightarrow> \<exists>v'. getVarN buf 5 = (v', n, Some e)"
  by (cases "getVarN buf 5") (auto simp: getVarInt_def maxIntBytes_def)

lemma getVarLong_eq: "getVarLong buf = getVarN buf 10"
  by (cases "getVarN buf 10") (simp add: getVarLong_def maxLongBytes_def)

text \<open>
  C5.  \<open>getVarInt\<close> fails with \<open>errBufTooSmall\<close> exactly when the buffer holds fewer
  than 5 bytes, all with the continuation bit (bit 7) set, and then reports the number of
  bytes available; it fails with \<open>errValueTooLarge\<close> exactly when the buffer holds at
  least 5 bytes and the first 5 all have the continuation bit set, and then reports 5.
  \<open>getVarLong\<close> does the same with width 10.  The empty buffer fails with
  \<open>errBufTooSmall\<close>, six continuation-flagged bytes fail with \<open>errValueTooLarge\<close>.
\<close>

theorem getVarInt_getVarLong_errors:
  "((\<exists>v n. getVarInt buf = (v, n, Some errBufTooSmall)) \<longleftrightarrow>
      length buf < 5 \<and> (\<forall>b \<in> set buf. bit b 7)) \<and>
   (\<forall>v n. getVarInt buf = (v, n, Some errBufTooSmall) \<longrightarrow> n = int (length buf)) \<and>
   ((\<exists>v n. getVarInt buf = (v, n, Some errValueTooLarge)) \<longleftrightarrow>
      5 \<le> length buf \<and> (\<forall>b \<in> set (take 5 buf). bit b 7)) \<and>
   (\<forall>v n. getVarInt buf = (v, n, Some errValueTooLarge) \<longrightarrow> n = 5) \<and>
   ((\<exists>v n. getVarLong buf = (v, n, Some errBufTooSmall)) \<longleftrightarrow>
      length buf < 10 \<and> (\<forall>b \<in> set buf. bit b 7)) \<and>
   (\<forall>v n. getVarLong buf = (v, n, Some errBufTooSmall) \<longrightarrow> n = int (length buf)) \<and>
   ((\<exists>v n. getVarLong buf = (v, n, Some errValueTooLarge)) \<longleftrightarrow>
      10 \<le> length buf \<and> (\<forall>b \<in> set (take 10 buf). bit b 7)) \<and>
   (\<forall>v n. getVarLong buf = (v, n, Some errValueTooLarge) \<longrightarrow> n = 10) \<and>
   getVarInt [] = (0, 0, Some errBufTooSmall) \<and>
   getVarInt [0x80, 0x80, 0x80, 0x80, 0x80, 0x80] = (0, 5, Some errValueTooLarge)"
proof -
  have i1: "(\<exists>v n. getVarInt buf = (v, n, Some errBufTooSmall)) \<longleftrightarrow>
      length buf < 5 \<and> (\<forall>b \<in> set buf. bit b 7)"
    using getVarN_small_iff [of buf 5] by (simp add: getVarInt_err_iff)
  have i2: "\<forall>v n. getVarInt buf = (v, n, Some errBufTooSmall) \<longrightarrow> n = int (length buf)"
    using getVarN_small_n [of buf 5] by (blast dest: getVarInt_err_n)
  have i3: "(\<exists>v n. getVarInt buf = (v, n, Some errValueTooLarge)) \<longleftrightarrow>
      5 \<le> length buf \<and> (\<forall>b \<in> set (take 5 buf). bit b 7)"
    using getVarN_large_iff [of buf 5] by (simp add: getVarInt_err_iff)
  have i4: "\<forall>v n. getVarInt buf = (v, n, Some errValueTooLarge) \<longrightarrow> n = 5"
    using getVarN_large_n [of buf 5] by (blast dest: getVarInt_err_n)
  have l1: "(\<exists>v n. getVarLong buf = (v, n, Some errBufTooSmall)) \<longleftrightarrow>
      length buf < 10 \<and> (\<forall>b \<in> set buf. bit b 7)"
    using getVarN_small_iff [of buf 10] by (simp add: getVarLong_eq)
  have l2: "\<forall>v n. getVarLong buf = (v, n, Some errBufTooSmall) \<longrightarrow> n = int (length buf)"
    using getVarN_small_n [of buf 10] by (simp add: getVarLong_eq)
  have l3: "(\<exists>v n. getVarLong buf = (v, n, Some errValueTooLarge)) \<longleftrightarrow>
      10 \<le> length buf \<and> (\<forall>b \<in> set (take 10 buf). bit b 7)"
    using getVarN_large_iff [of buf 10] by (simp add: getVarLong_eq)
  have l4: "\<forall>v n. getVarLong buf = (v, n, Some errValueTooLarge) \<longrightarrow> n = 10"
    using getVarN_large_n [of buf 10] by (simp add: getVarLong_eq)
  have e1: "getVarInt [] = (0, 0, Some errBufTooSmall)"
    by code_simp
  have e2: "getVarInt [0x80, 0x80, 0x80, 0x80, 0x80, 0x80] = (0, 5, Some errValueTooLarge)"
    by code_simp
  from i1 i2 i3 i4 l1 l2 l3 l4 e1 e2 show ?thesis by blast
qed

theorem getVarInt_getVarLong_errors_witness:
  "getVarInt [0xff, 0x80] = (0, 2, Some errBufTooSmall) \<and>
   getVarLong [0xff, 0x80] = (0, 2, Some errBufTooSmall) \<and>
   (\<exists>v. getVarInt [0xff, 0xff, 0xff, 0xff, 0xff, 0x0f] = (v, 5, Some errValueTooLarge))"
proof -
  have a: "getVarInt [0xff, 0x80] = (0, 2, Some errBufTooSmall)" by code_simp
  have b: "getVarLong [0xff, 0x80] = (0, 2, Some errBufTooSmall)" by code_simp
  have c: "length [0xff, 0xff, 0xff, 0xff, 0xff, 0x0f :: byte] \<ge> 5 \<and>
           (\<forall>b \<in> set (take 5 [0xff, 0xff, 0xff, 0xff, 0xff, 0x0f :: byte]). bit b 7)"
    by simp
  from c getVarInt_getVarLong_errors [of "[0xff, 0xff, 0xff, 0xff, 0xff, 0x0f]"]
  have "\<exists>v. getVarInt [0xff, 0xff, 0xff, 0xff, 0xff, 0x0f] = (v, 5, Some errValueTooLarge)"
    by blast
  with a b show ?thesis by blast
qed

section \<open>The two declarations of getVarN\<close>

text \<open>
  C10.  On the one-byte buffer \<open>[0x80]\<close> with maximum byte count 5 both decoders fail
  with \<open>errBufTooSmall\<close>, the one of \<open>varint.go\<close> reporting the maximum width 5 and the
  one of \<open>types.go\<close> the 1 byte available: the two functions are not equal.
\<close>

theorem getVarN_variants_differ:
  "varint_getVarN [0x80] 5 = (0, 5, Some errBufTooSmall) \<and>
   getVarN [0x80] 5 = (0, 1, Some errBufTooSmall) \<and>
   varint_getVarN \<noteq> getVarN"
proof -
  have a: "varint_getVarN [0x80] 5 = (0, 5, Some errBufTooSmall)" by code_simp
  have b: "getVarN [0x80] 5 = (0, 1, Some errBufTooSmall)" by code_simp
  have "varint_getVarN [0x80] 5 \<noteq> getVarN [0x80] 5"
    unfolding a b by simp
  then have "varint_getVarN \<noteq> getVarN" by auto
  with a b show ?thesis by simp
qed

section \<open>Bit length and the size function\<close>

lemma bit_len_0 [simp]: "bit_len 0 = 0"
  by (simp add: bit_len.simps)

lemma bit_len_pos: "0 < n \<Longrightarrow> bit_len n = Suc (bit_len (n div 2))"
  by (subst bit_len.simps) simp

lemma bit_len_floorlog: "bit_len n = floorlog 2 n"
proof (induction n rule: bit_len.induct)
  case (1 n)
  show ?case
  proof (cases "n = 0")
    case True
    then show ?thesis by (simp add: floorlog_def)
  next
    case False
    then have "bit_len n = Suc (floorlog 2 (n div 2))"
      using 1 by (simp add: bit_len_pos)
    also have "\<dots> = floorlog 2 n"
      using False compute_floorlog [of 2 n] by simp
    finally show ?thesis .
  qed
qed

lemma bit_len_le_iff: "bit_len n \<le> k \<longleftrightarrow> n < 2 ^ k"
proof (induction k arbitrary: n)
  case 0
  show ?case by (cases "n = 0") (simp_all add: bit_len_pos)
next
  case (Suc k)
  show ?case
  proof (cases "n = 0")
    case True
    then show ?thesis by simp
  next
    case False
    then have "bit_len n \<le> Suc k \<longleftrightarrow> n div 2 < 2 ^ k"
      using Suc.IH [of "n div 2"] by (simp add: bit_len_pos)
    also have "\<dots> \<longleftrightarrow> n < 2 ^ Suc k" by auto
    finally show ?thesis .
  qed
qed

lemma bit_len_shift: "2 ^ k \<le> n \<Longrightarrow> bit_len n = k + bit_len (n div 2 ^ k)"
proof (induction k arbitrary: n)
  case 0
  show ?case by simp
next
  case (Suc k)
  have "0 < (2::nat) ^ Suc k" by simp
  with Suc.prems have pos: "0 < n" by linarith
  from Suc.prems have half: "2 ^ k \<le> n div 2" by simp
  have "bit_len n = Suc (bit_len (n div 2))" using pos by (rule bit_len_pos)
  also have "\<dots> = Suc (k + bit_len (n div 2 div 2 ^ k))"
    using Suc.IH [OF half] by simp
  also have "n div 2 div 2 ^ k = n div 2 ^ Suc k"
    by (simp add: div_mult2_eq)
  finally show ?case by simp
qed

lemma cmask_eq_mask: "cmask = (mask 7 :: 'a::len word)"
  by (simp add: cmask_def msb_def cbits_def mask_eq_exp_minus_1)

lemma and_not_mask_0_iff:
  "(v :: 'a::len word) AND NOT (mask k) = 0 \<longleftrightarrow> drop_bit k v = 0"
proof
  assume L: "v AND NOT (mask k) = 0"
  show "drop_bit k v = 0"
  proof (rule bit_eqI)
    fix n
    have "\<not> bit (v AND NOT (mask k)) (k + n)" by (simp add: L)
    then show "bit (drop_bit k v) n \<longleftrightarrow> bit (0 :: 'a word) n"
      by (auto simp: bit_simps dest: bit_imp_le_length)
  qed
next
  assume R: "drop_bit k v = 0"
  show "v AND NOT (mask k) = 0"
  proof (rule bit_eqI)
    fix n
    have "\<not> bit (drop_bit k v) (n - k)" by (simp add: R)
    then show "bit (v AND NOT (mask k)) n \<longleftrightarrow> bit (0 :: 'a word) n"
      by (cases "n < k") (auto simp: bit_simps)
  qed
qed

lemma cmask_test: "(v :: uint64) AND NOT cmask = 0 \<longleftrightarrow> unat v < 128"
proof -
  have "v AND NOT cmask = 0 \<longleftrightarrow> drop_bit 7 v = 0"
    by (simp add: cmask_eq_mask and_not_mask_0_iff)
  also have "\<dots> \<longleftrightarrow> unat (drop_bit 7 v) = 0"
    by (simp add: unat_eq_0)
  also have "\<dots> \<longleftrightarrow> unat v < 128"
    by (simp add: drop_bit_eq_div unat_div_distrib div_eq_0_iff)
  finally show ?thesis .
qed

lemma unat_drop_cbits: "unat (drop_bit cbits (v :: uint64)) = unat v div 128"
  by (simp add: drop_bit_eq_div unat_div_distrib cbits_def)

lemma lenVarN_small: "unat v < 128 \<Longrightarrow> lenVarN v = 1"
proof -
  assume "unat v < 128"
  then have "bit_len (unat v) \<le> 7" by (simp add: bit_len_le_iff)
  then have "- 1 \<le> int (bit_len (unat v)) - 1" "int (bit_len (unat v)) - 1 < 7" by auto
  then have "(int (bit_len (unat v)) - 1) sdiv 7 = 0"
    by (auto simp: signed_divide_int_def sgn_if div_eq_0_iff abs_if)
  then show ?thesis by (simp add: lenVarN_def Len64_def cbits_def)
qed

lemma lenVarN_large: "\<not> unat v < 128 \<Longrightarrow> lenVarN v = 1 + lenVarN (drop_bit cbits v)"
proof -
  assume "\<not> unat v < 128"
  then have ge: "2 ^ 7 \<le> unat v" by simp
  define b where "b = bit_len (unat v div 128)"
  have "0 < unat v div 128" using ge by simp
  then have bpos: "0 < b" unfolding b_def by (simp add: bit_len_pos)
  have bl: "bit_len (unat v) = 7 + b"
    using bit_len_shift [OF ge] by (simp add: b_def)
  have "(int (7 + b) - 1) sdiv 7 = (int (7 + b) - 1) div 7"
    by (simp add: signed_divide_int_def sgn_if)
  also have "\<dots> = 1 + (int b - 1) div 7" using bpos by simp
  also have "(int b - 1) div 7 = (int b - 1) sdiv 7"
    using bpos by (simp add: signed_divide_int_def sgn_if)
  finally show ?thesis
    by (simp add: lenVarN_def Len64_def cbits_def unat_drop_cbits [unfolded cbits_def] bl b_def)
qed

section \<open>The encoder loop\<close>

lemma putVarN_loop_length: "length (fst (putVarN_loop buf v mb i)) = length buf"
proof (induction buf v mb i rule: putVarN_loop.induct)
  case (1 buf v mb i)
  then show ?case
    by (subst putVarN_loop.simps) (simp add: Let_def)
qed

lemma putVarN_loop_outside:
  "j < i \<Longrightarrow> fst (putVarN_loop buf v mb i) ! j = buf ! j"
proof (induction buf v mb i rule: putVarN_loop.induct)
  case (1 buf v mb i)
  then show ?case
    by (subst putVarN_loop.simps) (simp add: Let_def)
qed

lemma putVarN_loop_n:
  "putVarN_loop buf v mb i = (buf', Some n) \<Longrightarrow> n = int i + lenVarN v"
proof (induction buf v mb i rule: putVarN_loop.induct)
  case (1 buf v mb i)
  show ?case
  proof (cases "i < length buf \<and> int i < mb")
    case False
    with "1.prems" show ?thesis
      by (subst (asm) putVarN_loop.simps) simp
  next
    case inrange: True
    show ?thesis
    proof (cases "v AND NOT cmask = 0")
      case True
      then have "lenVarN v = 1" by (simp add: cmask_test lenVarN_small)
      moreover from "1.prems" inrange True have "n = int i + 1"
        by (subst (asm) putVarN_loop.simps) simp
      ultimately show ?thesis by simp
    next
      case False
      then have len: "lenVarN v = 1 + lenVarN (drop_bit cbits v)"
        by (simp add: cmask_test lenVarN_large)
      from "1.prems" inrange False
      have "putVarN_loop (buf[i := ucast (v OR msb)]) (drop_bit cbits v) mb (Suc i) = (buf', Some n)"
        by (subst (asm) putVarN_loop.simps) simp
      from "1.IH" [OF inrange False this] len show ?thesis by simp
    qed
  qed
qed

lemma lenVarN_pos: "0 < lenVarN v"
proof (induction "unat v" arbitrary: v rule: less_induct)
  case less
  show ?case
  proof (cases "unat v < 128")
    case True
    then show ?thesis by (simp add: lenVarN_small)
  next
    case False
    then have "unat (drop_bit cbits v) < unat v" by (simp add: unat_drop_cbits)
    from less [OF this] False show ?thesis by (simp add: lenVarN_large)
  qed
qed

lemma putVarN_loop_after:
  "putVarN_loop buf v mb i = (buf', Some n) \<Longrightarrow> drop (nat n) buf' = drop (nat n) buf"
proof (induction buf v mb i arbitrary: buf' rule: putVarN_loop.induct)
  case (1 buf v mb i)
  show ?case
  proof (cases "i < length buf \<and> int i < mb")
    case False
    with "1.prems" show ?thesis
      by (subst (asm) putVarN_loop.simps) simp
  next
    case inrange: True
    show ?thesis
    proof (cases "v AND NOT cmask = 0")
      case True
      with "1.prems" inrange have "buf' = buf[i := ucast v]" "n = int i + 1"
        by (subst (asm) putVarN_loop.simps, simp)+
      then show ?thesis by (simp add: nat_add_distrib)
    next
      case False
      from "1.prems" inrange False
      have rec: "putVarN_loop (buf[i := ucast (v OR msb)]) (drop_bit cbits v) mb (Suc i) = (buf', Some n)"
        by (subst (asm) putVarN_loop.simps) simp
      then have "n = int (Suc i) + lenVarN (drop_bit cbits v)" by (rule putVarN_loop_n)
      moreover have "0 < lenVarN (drop_bit cbits v)"
        by (rule lenVarN_pos)
      ultimately have "i < nat n" by simp
      with "1.IH" [OF inrange False rec] show ?thesis by simp
    qed
  qed
qed

lemma putVarN_loop_succeeds:
  "unat v < 2 ^ (7 * k) \<Longrightarrow> 0 < k \<Longrightarrow> i + k \<le> length buf \<Longrightarrow> int (i + k) \<le> mb \<Longrightarrow>
     \<exists>buf' n. putVarN_loop buf v mb i = (buf', Some n)"
proof (induction k arbitrary: v i buf)
  case 0
  then show ?case by simp
next
  case (Suc k)
  then have inrange: "i < length buf \<and> int i < mb" by auto
  show ?case
  proof (cases "v AND NOT cmask = 0")
    case True
    with inrange show ?thesis
      by (subst putVarN_loop.simps) simp
  next
    case False
    then have big: "128 \<le> unat v" by (simp add: cmask_test)
    have "unat v < 128 * 2 ^ (7 * k)" using Suc.prems(1) by (simp add: power_add)
    then have small: "unat (drop_bit cbits v) < 2 ^ (7 * k)"
      by (simp add: unat_drop_cbits less_mult_imp_div_less mult.commute)
    have kpos: "0 < k"
    proof (rule ccontr)
      assume "\<not> 0 < k"
      with Suc.prems(1) big show False by simp
    qed
    have "\<exists>buf' n. putVarN_loop (buf[i := ucast (v OR msb)]) (drop_bit cbits v) mb (Suc i)
            = (buf', Some n)"
      using Suc.prems by (intro Suc.IH [OF small kpos]) simp_all
    with inrange False show ?thesis
      by (subst putVarN_loop.simps) simp
  qed
qed

section \<open>Decoding what the encoder wrote\<close>

lemma getVarN_loop_bounds:
  "getVarN_loop buf mb i acc = Some (r, n) \<Longrightarrow> int i < n \<and> n \<le> int (length buf) \<and> n \<le> mb"
proof (induction buf mb i acc rule: getVarN_loop.induct)
  case (1 buf mb i v)
  show ?case
  proof (cases "i < length buf \<and> int i < mb")
    case False
    with "1.prems" show ?thesis
      by (subst (asm) getVarN_loop.simps) simp
  next
    case inrange: True
    show ?thesis
    proof (cases "buf ! i AND msb = 0")
      case True
      with "1.prems" inrange have "n = int i + 1"
        by (subst (asm) getVarN_loop.simps) (simp add: Let_def)
      with inrange show ?thesis by auto
    next
      case False
      with "1.prems" inrange
      have "getVarN_loop buf mb (Suc i)
              (v OR push_bit (i * cbits) (ucast (buf ! i AND cmask))) = Some (r, n)"
        by (subst (asm) getVarN_loop.simps) (simp add: Let_def)
      from "1.IH" [OF inrange refl False this] show ?thesis by simp
    qed
  qed
qed

lemma getVarN_loop_prefix:
  "getVarN_loop buf mb i acc = Some (r, n) \<Longrightarrow> take (nat n) buf2 = take (nat n) buf \<Longrightarrow>
     getVarN_loop buf2 mb i acc = Some (r, n)"
proof (induction buf mb i acc rule: getVarN_loop.induct)
  case (1 buf mb i v)
  from getVarN_loop_bounds [OF "1.prems"(1)]
  have b: "int i < n" "n \<le> int (length buf)" "n \<le> mb" by simp_all
  then have inrange: "i < length buf \<and> int i < mb" by auto
  have "length (take (nat n) buf2) = length (take (nat n) buf)"
    using "1.prems"(2) by simp
  with b have len2: "nat n \<le> length buf2" by (simp add: min_def split: if_splits)
  with b have inrange2: "i < length buf2 \<and> int i < mb" by auto
  have "take (nat n) buf2 ! i = take (nat n) buf ! i" using "1.prems"(2) by simp
  with b have same: "buf2 ! i = buf ! i" by simp
  show ?case
  proof (cases "buf ! i AND msb = 0")
    case True
    with "1.prems"(1) inrange
    have "Some (v OR push_bit (i * cbits) (ucast (buf ! i AND cmask)), int i + 1) = Some (r, n)"
      by (subst (asm) getVarN_loop.simps) (simp add: Let_def)
    with True inrange2 same show ?thesis
      by (subst getVarN_loop.simps) (simp add: Let_def)
  next
    case False
    with "1.prems"(1) inrange
    have "getVarN_loop buf mb (Suc i)
            (v OR push_bit (i * cbits) (ucast (buf ! i AND cmask))) = Some (r, n)"
      by (subst (asm) getVarN_loop.simps) (simp add: Let_def)
    from "1.IH" [OF inrange refl False this "1.prems"(2)] False inrange2 same show ?thesis
      by (subst getVarN_loop.simps) (simp add: Let_def)
  qed
qed

lemma low_byte_final:
  "(v :: uint64) AND NOT cmask = 0 \<Longrightarrow>
     ucast ((ucast v :: byte) AND cmask) = v \<and> (ucast v :: byte) AND msb = 0"
proof -
  assume "v AND NOT cmask = 0"
  then have d: "drop_bit 7 v = 0" by (simp add: cmask_eq_mask and_not_mask_0_iff)
  have hi: "\<not> bit v n" if "7 \<le> n" for n
  proof -
    have "bit (drop_bit 7 v) (n - 7) = bit v n" using that by (simp add: bit_simps)
    then show ?thesis by (simp add: d)
  qed
  have "ucast ((ucast v :: byte) AND mask 7) = v"
  proof (rule bit_eqI)
    fix n
    show "bit (ucast ((ucast v :: byte) AND mask 7) :: uint64) n \<longleftrightarrow> bit v n"
      using hi [of n] by (cases "7 \<le> n") (auto simp: bit_simps)
  qed
  moreover have "\<not> bit (ucast v :: byte) 7"
    using hi [of 7] by (simp add: bit_simps)
  ultimately show ?thesis by (simp add: cmask_eq_mask msb_byte_iff)
qed

lemma low_byte_cont_gen:
  "k < 8 \<Longrightarrow>
   ucast ((ucast ((v :: uint64) OR push_bit k 1) :: byte) AND mask k) = (take_bit k v :: uint64) \<and>
   bit (ucast (v OR push_bit k 1) :: byte) k"
proof
  assume k: "k < 8"
  show "ucast ((ucast (v OR push_bit k 1) :: byte) AND mask k) = (take_bit k v :: uint64)"
  proof (rule bit_eqI)
    fix n
    show "bit (ucast ((ucast (v OR push_bit k 1) :: byte) AND mask k) :: uint64) n
            \<longleftrightarrow> bit (take_bit k v) n"
      using k by (auto simp: bit_simps dest: bit_imp_le_length)
  qed
  show "bit (ucast (v OR push_bit k 1) :: byte) k"
    using k by (simp add: bit_simps)
qed

lemma low_byte_cont:
  "ucast ((ucast ((v :: uint64) OR msb) :: byte) AND cmask) = (take_bit 7 v :: uint64) \<and>
   (ucast (v OR msb) :: byte) AND msb \<noteq> 0"
  using low_byte_cont_gen [of 7 v]
  by (simp add: cmask_eq_mask msb_byte_iff) (simp add: msb_def cbits_def)

lemma take_drop_join:
  "take_bit k v OR push_bit k (drop_bit k v) = (v :: uint64)"
proof (rule bit_eqI)
  fix n
  show "bit (take_bit k v OR push_bit k (drop_bit k v)) n \<longleftrightarrow> bit v n"
    by (cases "k \<le> n") (auto simp: bit_simps dest: bit_imp_le_length)
qed

lemma chunk_join:
  "push_bit (i * cbits) (take_bit 7 (v :: uint64)) OR push_bit (Suc i * cbits) (drop_bit cbits v)
     = push_bit (i * cbits) v"
proof -
  have "push_bit (i * 7) (take_bit 7 v OR push_bit 7 (drop_bit 7 v)) = push_bit (i * 7) v"
    by (simp only: take_drop_join)
  moreover have "push_bit (i * 7) (take_bit 7 v OR push_bit 7 (drop_bit 7 v))
      = push_bit (i * 7) (take_bit 7 v) OR push_bit (Suc i * 7) (drop_bit 7 v)"
    by (simp only: push_bit_or push_bit_push_bit mult_Suc add.commute)
  ultimately show ?thesis by (simp only: cbits_def)
qed

lemma putVarN_getVarN_loop:
  "putVarN_loop buf v mb i = (buf', Some n) \<Longrightarrow>
     getVarN_loop buf' mb i acc = Some (acc OR push_bit (i * cbits) v, n)"
proof (induction buf v mb i arbitrary: acc rule: putVarN_loop.induct)
  case (1 buf v mb i)
  have len: "length buf' = length buf"
    using putVarN_loop_length [of buf v mb i] "1.prems" by simp
  show ?case
  proof (cases "i < length buf \<and> int i < mb")
    case False
    with "1.prems" show ?thesis
      by (subst (asm) putVarN_loop.simps) simp
  next
    case inrange: True
    show ?thesis
    proof (cases "v AND NOT cmask = 0")
      case True
      with "1.prems" inrange have "buf' = buf[i := ucast v]" "n = int i + 1"
        by (subst (asm) putVarN_loop.simps, simp)+
      with inrange low_byte_final [OF True] show ?thesis
        by (subst getVarN_loop.simps) (simp add: Let_def)
    next
      case False
      from "1.prems" inrange False
      have rec: "putVarN_loop (buf[i := ucast (v OR msb)]) (drop_bit cbits v) mb (Suc i) = (buf', Some n)"
        by (subst (asm) putVarN_loop.simps) simp
      have "buf' ! i = (buf[i := ucast (v OR msb)]) ! i"
        using putVarN_loop_outside [of i "Suc i" "buf[i := ucast (v OR msb)]" "drop_bit cbits v" mb] rec
        by simp
      with inrange have at_i: "buf' ! i = ucast (v OR msb)" by simp
      have "getVarN_loop buf' mb i acc =
              getVarN_loop buf' mb (Suc i) (acc OR push_bit (i * cbits) (take_bit 7 v))"
        using inrange len at_i low_byte_cont [of v]
        by (subst getVarN_loop.simps) (simp add: Let_def)
      also have "\<dots> = Some ((acc OR push_bit (i * cbits) (take_bit 7 v))
                           OR push_bit (Suc i * cbits) (drop_bit cbits v), n)"
        by (rule "1.IH" [OF inrange False rec])
      also have "(acc OR push_bit (i * cbits) (take_bit 7 v))
                     OR push_bit (Suc i * cbits) (drop_bit cbits v)
                 = acc OR push_bit (i * cbits) v"
        using chunk_join [of i v] by (simp add: or.assoc)
      finally show ?thesis .
    qed
  qed
qed

lemma putVarN_success_n:
  "putVarN buf v mb = (buf', n, None) \<Longrightarrow> n = lenVarN v"
proof -
  assume a: "putVarN buf v mb = (buf', n, None)"
  obtain b r where l: "putVarN_loop buf v mb 0 = (b, r)" by (cases "putVarN_loop buf v mb 0")
  with a have "r = Some n \<and> b = buf'"
    by (cases r) (auto simp: putVarN_def split: if_splits)
  with l have "putVarN_loop buf v mb 0 = (buf', Some n)" by simp
  from putVarN_loop_n [OF this] show ?thesis by simp
qed

lemma putVarN_ok:
  assumes "unat v < 2 ^ (7 * k)" "0 < k" "k \<le> length buf" "int k \<le> mb"
  shows "\<exists>buf'. putVarN buf v mb = (buf', lenVarN v, None) \<and> length buf' = length buf \<and>
           drop (nat (lenVarN v)) buf' = drop (nat (lenVarN v)) buf \<and>
           nat (lenVarN v) \<le> length buf \<and>
           (\<forall>buf2. take (nat (lenVarN v)) buf2 = take (nat (lenVarN v)) buf' \<longrightarrow>
              getVarN buf2 mb = (v, lenVarN v, None))"
proof -
  from putVarN_loop_succeeds [of v k 0 buf mb] assms
  obtain buf' n where l: "putVarN_loop buf v mb 0 = (buf', Some n)" by auto
  have n: "n = lenVarN v" using putVarN_loop_n [OF l] by simp
  have put: "putVarN buf v mb = (buf', lenVarN v, None)" by (simp add: putVarN_def l n)
  have len: "length buf' = length buf" using putVarN_loop_length [of buf v mb 0] l by simp
  have after: "drop (nat (lenVarN v)) buf' = drop (nat (lenVarN v)) buf"
    using putVarN_loop_after [OF l] n by simp
  have g: "getVarN_loop buf' mb 0 0 = Some (v, n)"
    using putVarN_getVarN_loop [OF l, of 0] by simp
  have bound: "nat (lenVarN v) \<le> length buf"
    using getVarN_loop_bounds [OF g] len n by linarith
  have "getVarN buf2 mb = (v, lenVarN v, None)"
    if "take (nat (lenVarN v)) buf2 = take (nat (lenVarN v)) buf'" for buf2
  proof -
    from that n have "take (nat n) buf2 = take (nat n) buf'" by simp
    from getVarN_loop_prefix [OF g this] n show ?thesis by (simp add: getVarN_def)
  qed
  with put len after bound show ?thesis by blast
qed

lemma unat_ucast_32_64: "unat (ucast (v :: int32) :: uint64) = unat v"
proof -
  have "unat v < 2 ^ 32" using unsigned_less [of v] by simp
  then show ?thesis by (simp add: unsigned_ucast_eq take_bit_nat_eq_self)
qed

lemma ucast_ucast_32_64: "(ucast (ucast (v :: int32) :: uint64) :: int32) = v"
  by (rule ucast_up_ucast_id) (simp add: is_up)

lemma putVarInt_ok:
  assumes "5 \<le> length buf"
  shows "\<exists>buf'. putVarInt buf v = (buf', lenVarInt v, None) \<and> length buf' = length buf \<and>
           drop (nat (lenVarInt v)) buf' = drop (nat (lenVarInt v)) buf \<and>
           nat (lenVarInt v) \<le> length buf \<and>
           (\<forall>buf2. take (nat (lenVarInt v)) buf2 = take (nat (lenVarInt v)) buf' \<longrightarrow>
              getVarInt buf2 = (v, lenVarInt v, None))"
proof -
  have "unat v < 2 ^ 32" using unsigned_less [of v] by simp
  then have "unat (ucast v :: uint64) < 2 ^ (7 * 5)" by (simp add: unat_ucast_32_64)
  from putVarN_ok [OF this, of buf 5] assms show ?thesis
    by (auto simp: putVarInt_def getVarInt_def lenVarInt_def maxIntBytes_def ucast_ucast_32_64)
qed

lemma putVarLong_ok:
  assumes "10 \<le> length buf"
  shows "\<exists>buf'. putVarLong buf v = (buf', lenVarLong v, None) \<and> length buf' = length buf \<and>
           drop (nat (lenVarLong v)) buf' = drop (nat (lenVarLong v)) buf \<and>
           nat (lenVarLong v) \<le> length buf \<and>
           (\<forall>buf2. take (nat (lenVarLong v)) buf2 = take (nat (lenVarLong v)) buf' \<longrightarrow>
              getVarLong buf2 = (v, lenVarLong v, None))"
proof -
  have "unat v < 2 ^ 64" using unsigned_less [of v] by simp
  then have "unat v < 2 ^ (7 * 10)" by simp
  from putVarN_ok [OF this, of buf 10] assms show ?thesis
    by (auto simp: putVarLong_def getVarLong_def lenVarLong_def maxLongBytes_def)
qed

text \<open>
  C1.  Into a buffer of at least 5 bytes \<open>putVarInt\<close> succeeds for every \<open>int32\<close> value,
  writes \<open>lenVarInt v\<close> bytes and leaves the rest of the buffer as it was; \<open>getVarInt\<close>
  on the buffer, or on just the bytes written, returns the value and \<open>lenVarInt v\<close>
  without an error.  The same holds for \<open>putVarLong\<close> and \<open>getVarLong\<close> with a buffer of
  at least 10 bytes.
\<close>

theorem varint_roundtrip:
  "(5 \<le> length buf \<longrightarrow>
      (\<exists>buf'. putVarInt buf v = (buf', lenVarInt v, None) \<and>
         length buf' = length buf \<and>
         drop (nat (lenVarInt v)) buf' = drop (nat (lenVarInt v)) buf \<and>
         getVarInt buf' = (v, lenVarInt v, None) \<and>
         getVarInt (take (nat (lenVarInt v)) buf') = (v, lenVarInt v, None))) \<and>
   (10 \<le> length buf \<longrightarrow>
      (\<exists>buf'. putVarLong buf w = (buf', lenVarLong w, None) \<and>
         length buf' = length buf \<and>
         drop (nat (lenVarLong w)) buf' = drop (nat (lenVarLong w)) buf \<and>
         getVarLong buf' = (w, lenVarLong w, None) \<and>
         getVarLong (take (nat (lenVarLong w)) buf') = (w, lenVarLong w, None)))"
proof (intro conjI impI)
  assume "5 \<le> length buf"
  from putVarInt_ok [OF this, of v] obtain buf' where
    p: "putVarInt buf v = (buf', lenVarInt v, None)" "length buf' = length buf"
       "drop (nat (lenVarInt v)) buf' = drop (nat (lenVarInt v)) buf" and
    g: "\<And>buf2. take (nat (lenVarInt v)) buf2 = take (nat (lenVarInt v)) buf' \<Longrightarrow>
              getVarInt buf2 = (v, lenVarInt v, None)"
    by blast
  have "getVarInt buf' = (v, lenVarInt v, None)" by (rule g) simp
  moreover have "getVarInt (take (nat (lenVarInt v)) buf') = (v, lenVarInt v, None)"
    by (rule g) simp
  ultimately show "\<exists>buf'. putVarInt buf v = (buf', lenVarInt v, None) \<and>
         length buf' = length buf \<and>
         drop (nat (lenVarInt v)) buf' = drop (nat (lenVarInt v)) buf \<and>
         getVarInt buf' = (v, lenVarInt v, None) \<and>
         getVarInt (take (nat (lenVarInt v)) buf') = (v, lenVarInt v, None)"
    using p by blast
next
  assume "10 \<le> length buf"
  from putVarLong_ok [OF this, of w] obtain buf' where
    p: "putVarLong buf w = (buf', lenVarLong w, None)" "length buf' = length buf"
       "drop (nat (lenVarLong w)) buf' = drop (nat (lenVarLong w)) buf" and
    g: "\<And>buf2. take (nat (lenVarLong w)) buf2 = take (nat (lenVarLong w)) buf' \<Longrightarrow>
              getVarLong buf2 = (w, lenVarLong w, None)"
    by blast
  have "getVarLong buf' = (w, lenVarLong w, None)" by (rule g) simp
  moreover have "getVarLong (take (nat (lenVarLong w)) buf') = (w, lenVarLong w, None)"
    by (rule g) simp
  ultimately show "\<exists>buf'. putVarLong buf w = (buf', lenVarLong w, None) \<and>
         length buf' = length buf \<and>
         drop (nat (lenVarLong w)) buf' = drop (nat (lenVarLong w)) buf \<and>
         getVarLong buf' = (w, lenVarLong w, None) \<and>
         getVarLong (take (nat (lenVarLong w)) buf') = (w, lenVarLong w, None)"
    using p by blast
qed

theorem varint_roundtrip_witness:
  "putVarInt [9, 9, 9, 9, 9, 9] (- 2) = ([0xfe, 0xff, 0xff, 0xff, 0x0f, 9], 5, None) \<and>
   getVarInt [0xfe, 0xff, 0xff, 0xff, 0x0f, 9] = (- 2, 5, None) \<and>
   lenVarInt (- 2) = 5 \<and>
   putVarLong (replicate 10 0) 300 = ([0xac, 0x02, 0, 0, 0, 0, 0, 0, 0, 0], 2, None) \<and>
   getVarLong [0xac, 0x02] = (300, 2, None) \<and>
   lenVarLong 300 = 2"
proof -
  have a: "putVarInt [9, 9, 9, 9, 9, 9] (- 2) = ([0xfe, 0xff, 0xff, 0xff, 0x0f, 9], 5, None)"
    by code_simp
  have b: "putVarLong (replicate 10 0) 300 = ([0xac, 0x02, 0, 0, 0, 0, 0, 0, 0, 0], 2, None)"
    by code_simp
  have l1: "(5::nat) \<le> length [9, 9, 9, 9, 9, 9 :: byte]" by simp
  have l2: "(10::nat) \<le> length (replicate 10 (0 :: byte))" by simp
  from varint_roundtrip [of "[9, 9, 9, 9, 9, 9]" "- 2" 0] l1 a
  have c: "lenVarInt (- 2) = 5 \<and> getVarInt [0xfe, 0xff, 0xff, 0xff, 0x0f, 9] = (- 2, 5, None)"
    by auto
  from varint_roundtrip [of "replicate 10 0" 0 300] l2 b
  have d: "lenVarLong 300 = 2 \<and> getVarLong (take (nat 2) [0xac, 0x02, 0, 0, 0, 0, 0, 0, 0, 0]) = (300, 2, None)"
    by auto
  then have "getVarLong [0xac, 0x02] = (300, 2, None)" by simp
  with a b c d show ?thesis by simp
qed

section \<open>The size function against the specification\<close>

lemma lenVarN_spec: "lenVarN v = spec_size (unat v)"
proof (cases "unat v = 0")
  case True
  then show ?thesis
    by (simp add: lenVarN_def Len64_def cbits_def spec_size_def spec_bit_length_def
        signed_divide_int_def)
next
  case False
  then have "0 < bit_len (unat v)" by (simp add: bit_len_pos)
  then have "(int (bit_len (unat v)) - 1) sdiv 7 = (int (bit_len (unat v)) - 1) div 7"
    by (simp add: signed_divide_int_def sgn_if)
  with False show ?thesis
    by (simp add: lenVarN_def Len64_def cbits_def spec_size_def spec_bit_length_def
        bit_len_floorlog)
qed

lemma bit_len_between: "2 ^ k \<le> n \<Longrightarrow> n < 2 ^ Suc k \<Longrightarrow> bit_len n = Suc k"
proof -
  assume a: "2 ^ k \<le> n" and b: "n < 2 ^ Suc k"
  from b have "bit_len n \<le> Suc k" by (simp only: bit_len_le_iff)
  moreover from a have "\<not> bit_len n \<le> k" by (simp add: bit_len_le_iff)
  ultimately show ?thesis by simp
qed

lemma lenVarN_top: "2 ^ k \<le> unat v \<Longrightarrow> unat v < 2 ^ Suc k \<Longrightarrow> lenVarN v = 1 + int k div 7"
proof -
  assume a: "2 ^ k \<le> unat v" and b: "unat v < 2 ^ Suc k"
  have "int k sdiv 7 = int k div 7" by (simp add: signed_divide_int_def sgn_if)
  then show ?thesis
    by (simp add: lenVarN_def Len64_def cbits_def bit_len_between [OF a b])
qed

lemma negative_unat:
  "sint (v :: 'a::len word) < 0 \<Longrightarrow> 2 ^ (LENGTH('a) - Suc 0) \<le> unat v"
proof (rule ccontr)
  assume neg: "sint v < 0" and "\<not> 2 ^ (LENGTH('a) - Suc 0) \<le> unat v"
  then have "unat v < 2 ^ (LENGTH('a) - Suc 0)" by simp
  then have "uint v < 2 ^ (LENGTH('a) - Suc 0)"
    by (metis of_nat_less_iff of_nat_numeral of_nat_power uint_nat)
  then have "signed_take_bit (LENGTH('a) - Suc 0) (uint v) = uint v"
    by (intro signed_take_bit_int_eq_self) (auto intro: order_trans [of _ 0])
  then have "sint v = uint v" by (simp add: sint_uint)
  with neg show False by simp
qed

lemma lenVarInt_negative: "sint (v :: int32) < 0 \<Longrightarrow> lenVarInt v = 5"
proof -
  assume "sint v < 0"
  from negative_unat [OF this] have "2 ^ 31 \<le> unat v" by simp
  moreover have "unat v < 2 ^ Suc 31" using unsigned_less [of v] by simp
  ultimately show ?thesis
    using lenVarN_top [of 31 "ucast v"] by (simp add: lenVarInt_def unat_ucast_32_64)
qed

lemma lenVarLong_negative: "sint (v :: int64) < 0 \<Longrightarrow> lenVarLong v = 10"
proof -
  assume "sint v < 0"
  from negative_unat [OF this] have "2 ^ 63 \<le> unat v" by simp
  moreover have "unat v < 2 ^ Suc 63" using unsigned_less [of v] by simp
  ultimately show ?thesis
    using lenVarN_top [of 63 v] by (simp add: lenVarLong_def)
qed

text \<open>
  C8.  \<open>lenVarInt v\<close> is \<open>1 + (bit_length u - 1) / 7\<close> for the unsigned reading \<open>u\<close> of
  \<open>v\<close>, the bit length of 0 being 1, and it is the byte count of every successful
  \<open>putVarInt\<close> of \<open>v\<close>; likewise \<open>lenVarLong\<close> and \<open>putVarLong\<close>.  Negative values
  have the maximum width: 5 and 10 bytes, in particular for \<open>-1\<close>.
\<close>

theorem lenVar_spec:
  "lenVarInt v = 1 + (int (spec_bit_length (unat v)) - 1) div 7 \<and>
   (\<forall>buf buf' n. putVarInt buf v = (buf', n, None) \<longrightarrow> n = lenVarInt v) \<and>
   lenVarLong w = 1 + (int (spec_bit_length (unat w)) - 1) div 7 \<and>
   (\<forall>buf buf' n. putVarLong buf w = (buf', n, None) \<longrightarrow> n = lenVarLong w) \<and>
   (sint v < 0 \<longrightarrow> lenVarInt v = 5) \<and>
   (sint w < 0 \<longrightarrow> lenVarLong w = 10) \<and>
   lenVarInt (- 1) = 5 \<and> lenVarLong (- 1) = 10"
proof -
  have a: "lenVarInt v = 1 + (int (spec_bit_length (unat v)) - 1) div 7"
    using lenVarN_spec [of "ucast v"] by (simp add: lenVarInt_def unat_ucast_32_64 spec_size_def)
  have b: "\<forall>buf buf' n. putVarInt buf v = (buf', n, None) \<longrightarrow> n = lenVarInt v"
    by (auto simp: putVarInt_def lenVarInt_def dest: putVarN_success_n)
  have c: "lenVarLong w = 1 + (int (spec_bit_length (unat w)) - 1) div 7"
    using lenVarN_spec [of w] by (simp add: lenVarLong_def spec_size_def)
  have d: "\<forall>buf buf' n. putVarLong buf w = (buf', n, None) \<longrightarrow> n = lenVarLong w"
    by (auto simp: putVarLong_def lenVarLong_def dest: putVarN_success_n)
  have e: "lenVarInt (- 1) = 5" by (rule lenVarInt_negative) simp
  have f: "lenVarLong (- 1) = 10" by (rule lenVarLong_negative) simp
  from a b c d e f lenVarInt_negative [of v] lenVarLong_negative [of w] show ?thesis
    by blast
qed

theorem lenVar_spec_witness:
  "putVarInt [0, 0, 0, 0, 0] 300 = ([0xac, 0x02, 0, 0, 0], 2, None) \<and> lenVarInt 300 = 2 \<and>
   putVarLong [0, 0, 0] 0 = ([0, 0, 0], 1, None) \<and> lenVarLong 0 = 1 \<and>
   sint (- 5 :: int32) < 0 \<and> lenVarInt (- 5) = 5 \<and>
   sint (- 5 :: int64) < 0 \<and> lenVarLong (- 5) = 10"
proof -
  have a: "putVarInt [0, 0, 0, 0, 0] 300 = ([0xac, 0x02, 0, 0, 0], 2, None)" by code_simp
  have b: "putVarLong [0, 0, 0] 0 = ([0, 0, 0], 1, None)" by code_simp
  have c: "sint (- 5 :: int32) < 0" by simp
  have d: "sint (- 5 :: int64) < 0" by simp
  from lenVar_spec [of 300 0] a b have "lenVarInt 300 = 2 \<and> lenVarLong 0 = 1" by metis
  moreover from lenVar_spec [of "- 5" "- 5"] c d
  have "lenVarInt (- 5) = 5 \<and> lenVarLong (- 5) = 10" by blast
  ultimately show ?thesis using a b c d by blast
qed

section \<open>The error returns of the string codec\<close>

text \<open>
  C6, as the specification states it, fails on the one-byte buffer \<open>[0x01]\<close>: the prefix
  declares one byte, none follows, and \<open>getString\<close> reports 1 byte consumed, not 2.
\<close>

theorem getString_truncated_counterexample:
  "getVarInt [0x01] = (1, 1, None) \<and>
   0 \<le> sint (1 :: int32) \<and> sint (1 :: int32) \<le> 32767 \<and>
   int (length [0x01 :: byte]) - 1 < sint (1 :: int32) \<and>
   getString [0x01] = Return ([], 1, Some errBufTooSmall) \<and>
   getString [0x01] \<noteq> Return ([], 1 + sint (1 :: int32), Some errBufTooSmall)"
proof -
  have a: "getVarInt [0x01] = (1, 1, None)" by code_simp
  have b: "getString [0x01] = Return ([], 1, Some errBufTooSmall)" by code_simp
  show ?thesis unfolding a b by simp
qed

text \<open>
  C6, amended.  When the length prefix decodes to \<open>L\<close> with \<open>0 \<le> L \<le> 32767\<close> and fewer
  than \<open>L\<close> bytes follow the prefix, \<open>getString\<close> fails with \<open>errBufTooSmall\<close> and
  reports the length of the prefix alone.
\<close>

theorem getString_truncated:
  assumes "getVarInt buf = (L, m, None)"
    and "0 \<le> sint L" and "sint L \<le> 32767"
    and "int (length buf) - m < sint L"
  shows "getString buf = Return ([], m, Some errBufTooSmall)"
  using assms by (simp add: getString_def MaxInt16_def)

theorem getString_truncated_witness:
  "getVarInt [0x02, 0x41] = (2, 1, None) \<and> 0 \<le> sint (2 :: int32) \<and> sint (2 :: int32) \<le> 32767 \<and>
   int (length [0x02, 0x41 :: byte]) - 1 < sint (2 :: int32) \<and>
   getString [0x02, 0x41] = Return ([], 1, Some errBufTooSmall)"
proof -
  have a: "getVarInt [0x02, 0x41] = (2, 1, None)" by code_simp
  have "getString [0x02, 0x41] = Return ([], 1, Some errBufTooSmall)"
    by (rule getString_truncated [OF a]) simp_all
  with a show ?thesis by simp
qed

text \<open>
  C7, as the specification states it, fails for \<open>getString\<close> of \<open>types.go\<close>: the prefix
  \<open>[0xff, 0xff, 0x02]\<close> declares 49151 bytes and the error is \<open>errValueTooLarge\<close>, the
  sentinel of the integer codec.
\<close>

theorem getString_too_long_counterexample:
  "getVarInt [0xff, 0xff, 0x02] = (49151, 3, None) \<and> sint (49151 :: int32) > 32767 \<and>
   getString [0xff, 0xff, 0x02] = Return ([], 3, Some errValueTooLarge) \<and>
   getString [0xff, 0xff, 0x02] \<noteq> Return ([], 3, Some errStringTooLong)"
proof -
  have a: "getVarInt [0xff, 0xff, 0x02] = (49151, 3, None)" by code_simp
  have b: "getString [0xff, 0xff, 0x02] = Return ([], 3, Some errValueTooLarge)" by code_simp
  show ?thesis unfolding a b by simp
qed

text \<open>
  C7, amended.  When the length prefix decodes to more than 32767, \<open>getString\<close> of
  \<open>types.go\<close> fails with \<open>errValueTooLarge\<close> and the \<open>getString\<close> declared beside
  \<open>errStringTooLong\<close> fails with \<open>errStringTooLong\<close>, a different sentinel; both report
  the length of the prefix.  For a string of more than 32767 bytes the two \<open>putString\<close>
  fail with the same two sentinels, report 0 and leave the buffer as it was.
\<close>

theorem string_too_long:
  "(getVarInt buf = (L, m, None) \<and> sint L > 32767 \<longrightarrow>
      getString buf = Return ([], m, Some errValueTooLarge) \<and>
      part000_getString buf = Return ([], m, Some errStringTooLong)) \<and>
   (length s > 32767 \<longrightarrow>
      putString buf s = (buf, 0, Some errValueTooLarge) \<and>
      part000_putString buf s = (buf, 0, Some errStringTooLong)) \<and>
   errStringTooLong \<noteq> errValueTooLarge"
  by (simp add: getString_def part000_getString_def putString_def part000_putString_def
      MaxInt16_def)

theorem string_too_long_witness:
  "getVarInt [0xff, 0xff, 0x02] = (49151, 3, None) \<and> sint (49151 :: int32) > 32767 \<and>
   getString [0xff, 0xff, 0x02] = Return ([], 3, Some errValueTooLarge) \<and>
   part000_getString [0xff, 0xff, 0x02] = Return ([], 3, Some errStringTooLong) \<and>
   length (replicate 32768 (0x41 :: byte)) > 32767 \<and>
   putString [7, 7] (replicate 32768 0x41) = ([7, 7], 0, Some errValueTooLarge) \<and>
   part000_putString [7, 7] (replicate 32768 0x41) = ([7, 7], 0, Some errStringTooLong)"
proof -
  have a: "getVarInt [0xff, 0xff, 0x02] = (49151, 3, None)" by code_simp
  have b: "sint (49151 :: int32) > 32767" by simp
  have c: "length (replicate 32768 (0x41 :: byte)) > 32767" by simp
  from string_too_long [of "[0xff, 0xff, 0x02]" 49151 3 "replicate 32768 0x41"] a b
  have d: "getString [0xff, 0xff, 0x02] = Return ([], 3, Some errValueTooLarge) \<and>
      part000_getString [0xff, 0xff, 0x02] = Return ([], 3, Some errStringTooLong)"
    by blast
  from string_too_long [of "[7, 7]" 0 0 "replicate 32768 0x41"] c
  have e: "putString [7, 7] (replicate 32768 0x41) = ([7, 7], 0, Some errValueTooLarge) \<and>
      part000_putString [7, 7] (replicate 32768 0x41) = ([7, 7], 0, Some errStringTooLong)"
    by blast
  from a b c d e show ?thesis by blast
qed

section \<open>A buffer on which getPacket panics\<close>

text \<open>
  C3.  \<open>getPacket\<close> panics on the two-byte buffer \<open>[0x00, 0x00]\<close>: the total length 0 is
  smaller than the one byte of the opcode, the payload length is \<open>-1\<close>, the bounds check
  passes and \<open>make\<close> is called with a negative length.
\<close>

theorem getPacket_panics:
  "valid [[0x00, 0x00]] \<lparr>sl_arr = 0, sl_off = 0, sl_len = 2\<rparr> \<and>
   contents [[0x00, 0x00]] \<lparr>sl_arr = 0, sl_off = 0, sl_len = 2\<rparr> = [0x00, 0x00] \<and>
   getPacket [[0x00, 0x00]] \<lparr>sl_arr = 0, sl_off = 0, sl_len = 2\<rparr> = Panic"
proof -
  have "getPacket [[0x00, 0x00]] \<lparr>sl_arr = 0, sl_off = 0, sl_len = 2\<rparr> = Panic" by code_simp
  then show ?thesis by (simp add: valid_def contents_def)
qed

section \<open>Positions: encoding and decoding\<close>

lemma getField_x: "getField v 26 38 = signed_drop_bit 38 v"
  by (simp add: getField_def)

lemma getField_y: "getField v 12 26 = signed_drop_bit 52 (push_bit 26 v)"
  by (simp add: getField_def)

lemma getField_z: "getField v 26 0 = signed_drop_bit 38 (push_bit 38 v)"
  by (simp add: getField_def)

lemma putField_x: "putField n 26 38 = push_bit 38 n"
  by (simp add: putField_def)

lemma putField_y: "putField n 12 26 = drop_bit 26 (push_bit 52 n)"
  by (simp add: putField_def)

lemma putField_z: "putField n 26 0 = drop_bit 38 (push_bit 38 n)"
  by (simp add: putField_def)

lemma PutUint64_nth:
  assumes "8 \<le> length b"
  shows "PutUint64 b v ! 0 = ucast (drop_bit 56 v)" "PutUint64 b v ! 1 = ucast (drop_bit 48 v)"
    "PutUint64 b v ! 2 = ucast (drop_bit 40 v)" "PutUint64 b v ! 3 = ucast (drop_bit 32 v)"
    "PutUint64 b v ! 4 = ucast (drop_bit 24 v)" "PutUint64 b v ! 5 = ucast (drop_bit 16 v)"
    "PutUint64 b v ! 6 = ucast (drop_bit 8 v)" "PutUint64 b v ! 7 = ucast v"
proof -
  from assms have "0 < length b" "1 < length b" "2 < length b" "3 < length b"
    "4 < length b" "5 < length b" "6 < length b" "7 < length b"
    by linarith+
  then show "PutUint64 b v ! 0 = ucast (drop_bit 56 v)" "PutUint64 b v ! 1 = ucast (drop_bit 48 v)"
    "PutUint64 b v ! 2 = ucast (drop_bit 40 v)" "PutUint64 b v ! 3 = ucast (drop_bit 32 v)"
    "PutUint64 b v ! 4 = ucast (drop_bit 24 v)" "PutUint64 b v ! 5 = ucast (drop_bit 16 v)"
    "PutUint64 b v ! 6 = ucast (drop_bit 8 v)" "PutUint64 b v ! 7 = ucast v"
    by (simp_all add: PutUint64_def)
qed

lemma byte_of_word:
  "push_bit k (ucast (ucast (drop_bit k (v :: uint64)) :: byte)) = (push_bit k (take_bit 8 (drop_bit k v)) :: uint64)"
proof -
  have "(ucast (ucast (drop_bit k v) :: byte) :: uint64) = take_bit 8 (drop_bit k v)"
    by (rule bit_eqI) (auto simp: bit_simps)
  then show ?thesis by simp
qed

lemma bytes_join:
  "take_bit 8 v OR push_bit 8 (take_bit 8 (drop_bit 8 v)) OR push_bit 16 (take_bit 8 (drop_bit 16 v)) OR
   push_bit 24 (take_bit 8 (drop_bit 24 v)) OR push_bit 32 (take_bit 8 (drop_bit 32 v)) OR
   push_bit 40 (take_bit 8 (drop_bit 40 v)) OR push_bit 48 (take_bit 8 (drop_bit 48 v)) OR
   push_bit 56 (take_bit 8 (drop_bit 56 v)) = (v :: uint64)"
proof (rule bit_eqI)
  fix n
  assume "possible_bit TYPE(uint64) n"
  then have n: "n < 64" by simp
  consider "n < 8" | "8 \<le> n" "n < 16" | "16 \<le> n" "n < 24" | "24 \<le> n" "n < 32"
    | "32 \<le> n" "n < 40" | "40 \<le> n" "n < 48" | "48 \<le> n" "n < 56" | "56 \<le> n" "n < 64"
    using n by linarith
  then show "bit (take_bit 8 v OR push_bit 8 (take_bit 8 (drop_bit 8 v)) OR push_bit 16 (take_bit 8 (drop_bit 16 v)) OR
   push_bit 24 (take_bit 8 (drop_bit 24 v)) OR push_bit 32 (take_bit 8 (drop_bit 32 v)) OR
   push_bit 40 (take_bit 8 (drop_bit 40 v)) OR push_bit 48 (take_bit 8 (drop_bit 48 v)) OR
   push_bit 56 (take_bit 8 (drop_bit 56 v))) n \<longleftrightarrow> bit v n"
    by cases (auto simp: bit_simps)
qed

lemma Uint64_PutUint64: "8 \<le> length b \<Longrightarrow> Uint64 (PutUint64 b v) = v"
proof -
  assume len: "8 \<le> length b"
  have "(ucast (ucast v :: byte) :: uint64) = take_bit 8 v"
    by (rule bit_eqI) (auto simp: bit_simps)
  then show ?thesis
    using bytes_join [of v]
    by (simp only: Uint64_def PutUint64_nth [OF len] byte_of_word)
qed

lemma in_range_bits:
  fixes w :: "'a::len word"
  assumes "- (2 ^ k) \<le> sint w" "sint w < 2 ^ k" "k \<le> n" "n < LENGTH('a)"
  shows "bit w n \<longleftrightarrow> bit w k"
proof -
  have "signed_take_bit k (sint w) = sint w"
    using assms(1,2) by (simp add: signed_take_bit_int_eq_self)
  then have "bit (sint w) n \<longleftrightarrow> bit (signed_take_bit k (sint w)) n" by simp
  also have "\<dots> \<longleftrightarrow> bit (sint w) k"
    using assms(3) by (simp add: bit_signed_take_bit_iff min_def)
  finally show ?thesis
    using assms(3,4) by (simp add: bit_sint_iff)
qed

lemma packed_bits:
  fixes x z :: int32 and y :: int16
  shows "bit (push_bit 38 (scast x :: uint64) OR drop_bit 26 (push_bit 52 (scast y))
              OR drop_bit 38 (push_bit 38 (scast z))) m
         \<longleftrightarrow> (if m < 26 then bit z m else if m < 38 then bit y (m - 26)
              else m < 64 \<and> bit x (m - 38))"
proof -
  consider "m < 26" | "26 \<le> m" "m < 38" | "38 \<le> m" "m < 64" | "64 \<le> m" by linarith
  then show ?thesis
    by cases (auto simp: bit_simps)
qed

lemma unpack_x:
  fixes x z :: int32 and y :: int16 and V :: uint64
  assumes V: "\<And>m. bit V m \<longleftrightarrow> (if m < 26 then bit z m else if m < 38 then bit y (m - 26)
              else m < 64 \<and> bit x (m - 38))"
    and r: "- (2 ^ 25) \<le> sint x" "sint x < 2 ^ 25"
  shows "ucast (signed_drop_bit 38 V) = x"
proof (rule bit_eqI)
  fix n
  assume "possible_bit TYPE(int32) n"
  then have n: "n < 32" by simp
  show "bit (ucast (signed_drop_bit 38 V) :: int32) n \<longleftrightarrow> bit x n"
  proof (cases "n < 26")
    case True
    then show ?thesis
      by (simp add: bit_ucast_iff bit_signed_drop_bit_iff V)
  next
    case False
    with n in_range_bits [OF r, of n] have "bit x n \<longleftrightarrow> bit x 25" by simp
    with False n show ?thesis
      by (simp add: bit_ucast_iff bit_signed_drop_bit_iff V)
  qed
qed

lemma unpack_y:
  fixes x z :: int32 and y :: int16 and V :: uint64
  assumes V: "\<And>m. bit V m \<longleftrightarrow> (if m < 26 then bit z m else if m < 38 then bit y (m - 26)
              else m < 64 \<and> bit x (m - 38))"
    and r: "- (2 ^ 11) \<le> sint y" "sint y < 2 ^ 11"
  shows "ucast (signed_drop_bit 52 (push_bit 26 V)) = y"
proof (rule bit_eqI)
  fix n
  assume "possible_bit TYPE(int16) n"
  then have n: "n < 16" by simp
  show "bit (ucast (signed_drop_bit 52 (push_bit 26 V)) :: int16) n \<longleftrightarrow> bit y n"
  proof (cases "n < 12")
    case True
    then show ?thesis
      by (simp add: bit_ucast_iff bit_signed_drop_bit_iff bit_push_bit_iff V)
  next
    case False
    with n in_range_bits [OF r, of n] have "bit y n \<longleftrightarrow> bit y 11" by simp
    with False n show ?thesis
      by (simp add: bit_ucast_iff bit_signed_drop_bit_iff bit_push_bit_iff V)
  qed
qed

lemma unpack_z:
  fixes x z :: int32 and y :: int16 and V :: uint64
  assumes V: "\<And>m. bit V m \<longleftrightarrow> (if m < 26 then bit z m else if m < 38 then bit y (m - 26)
              else m < 64 \<and> bit x (m - 38))"
    and r: "- (2 ^ 25) \<le> sint z" "sint z < 2 ^ 25"
  shows "ucast (signed_drop_bit 38 (push_bit 38 V)) = z"
proof (rule bit_eqI)
  fix n
  assume "possible_bit TYPE(int32) n"
  then have n: "n < 32" by simp
  show "bit (ucast (signed_drop_bit 38 (push_bit 38 V)) :: int32) n \<longleftrightarrow> bit z n"
  proof (cases "n < 26")
    case True
    then show ?thesis
      by (simp add: bit_ucast_iff bit_signed_drop_bit_iff bit_push_bit_iff V)
  next
    case False
    with n in_range_bits [OF r, of n] have "bit z n \<longleftrightarrow> bit z 25" by simp
    with False n show ?thesis
      by (simp add: bit_ucast_iff bit_signed_drop_bit_iff bit_push_bit_iff V)
  qed
qed

lemma length_PutUint64: "length (PutUint64 b v) = length b"
  by (simp add: PutUint64_def)

lemma position_roundtrip_gen:
  assumes len: "8 \<le> length buf"
    and rx: "- (2 ^ 25) \<le> sint (pos_x p)" "sint (pos_x p) < 2 ^ 25"
    and ry: "- (2 ^ 11) \<le> sint (pos_y p)" "sint (pos_y p) < 2 ^ 11"
    and rz: "- (2 ^ 25) \<le> sint (pos_z p)" "sint (pos_z p) < 2 ^ 25"
  shows "\<exists>buf'. putPosition buf (p :: position) = (buf', 8, None) \<and> length buf' = length buf \<and>
           drop 8 buf' = drop 8 buf \<and> getPosition buf' = (p, 8, None)"
proof -
  define v :: uint64 where "v = push_bit 38 (scast (pos_x p))
     OR drop_bit 26 (push_bit 52 (scast (pos_y p))) OR drop_bit 38 (push_bit 38 (scast (pos_z p)))"
  have vbits: "bit v m \<longleftrightarrow> (if m < 26 then bit (pos_z p) m
      else if m < 38 then bit (pos_y p) (m - 26) else m < 64 \<and> bit (pos_x p) (m - 38))" for m
    unfolding v_def by (rule packed_bits)
  have put: "putPosition buf p = (PutUint64 buf v, 8, None)"
    using len by (simp add: putPosition_def positionLen_def putField_x putField_y putField_z
        v_def or.assoc)
  have rd: "Uint64 (PutUint64 buf v) = v" using len by (rule Uint64_PutUint64)
  have "getPosition (PutUint64 buf v) =
     (\<lparr>pos_x = ucast (signed_drop_bit 38 v), pos_y = ucast (signed_drop_bit 52 (push_bit 26 v)),
       pos_z = ucast (signed_drop_bit 38 (push_bit 38 v))\<rparr>, 8, None)"
    using len by (simp add: getPosition_def positionLen_def length_PutUint64 rd
        getField_x getField_y getField_z)
  also have "\<dots> = (p, 8, None)"
    using unpack_x [OF vbits rx] unpack_y [OF vbits ry] unpack_z [OF vbits rz] by simp
  finally have get: "getPosition (PutUint64 buf v) = (p, 8, None)" .
  have "drop 8 (PutUint64 buf v) = drop 8 buf"
    by (simp add: PutUint64_def drop_update_cancel)
  with put get show ?thesis by (simp add: length_PutUint64)
qed

lemma PutUint64_zero: "length buf = 8 \<Longrightarrow> PutUint64 buf 0 = replicate 8 0"
proof -
  assume "length buf = 8"
  then obtain a b c d e f g h where "buf = [a, b, c, d, e, f, g, h]"
    by (auto simp: length_Suc_conv eval_nat_numeral)
  then show ?thesis by (simp add: PutUint64_def eval_nat_numeral)
qed

text \<open>
  C4.  For a position with \<open>x\<close> and \<open>z\<close> representable in 26 signed bits and \<open>y\<close> in 12,
  \<open>putPosition\<close> into a buffer of at least 8 bytes succeeds with 8 bytes written and
  \<open>getPosition\<close> on the result returns the position and 8.  The position
  \<open>{x:257, y:42, z:-513}\<close> encodes to \<open>00 00 40 40 ab ff fd ff\<close> and decodes from it, and
  the zero position encodes to eight zero bytes.
\<close>

theorem position_roundtrip:
  "(8 \<le> length buf \<and>
    - (2 ^ 25) \<le> sint (pos_x p) \<and> sint (pos_x p) < 2 ^ 25 \<and>
    - (2 ^ 11) \<le> sint (pos_y p) \<and> sint (pos_y p) < 2 ^ 11 \<and>
    - (2 ^ 25) \<le> sint (pos_z p) \<and> sint (pos_z p) < 2 ^ 25 \<longrightarrow>
      (\<exists>buf'. putPosition buf (p :: position) = (buf', 8, None) \<and> length buf' = length buf \<and>
         getPosition buf' = (p, 8, None))) \<and>
   putPosition (replicate 8 0) \<lparr>pos_x = 257, pos_y = 42, pos_z = - 513\<rparr> =
     ([0x00, 0x00, 0x40, 0x40, 0xab, 0xff, 0xfd, 0xff], 8, None) \<and>
   getPosition [0x00, 0x00, 0x40, 0x40, 0xab, 0xff, 0xfd, 0xff] =
     (\<lparr>pos_x = 257, pos_y = 42, pos_z = - 513\<rparr>, 8, None) \<and>
   (length buf = 8 \<longrightarrow>
      putPosition buf \<lparr>pos_x = 0, pos_y = 0, pos_z = 0\<rparr> = (replicate 8 0, 8, None))"
proof (intro conjI impI)
  assume "8 \<le> length buf \<and>
    - (2 ^ 25) \<le> sint (pos_x p) \<and> sint (pos_x p) < 2 ^ 25 \<and>
    - (2 ^ 11) \<le> sint (pos_y p) \<and> sint (pos_y p) < 2 ^ 11 \<and>
    - (2 ^ 25) \<le> sint (pos_z p) \<and> sint (pos_z p) < 2 ^ 25"
  then show "\<exists>buf'. putPosition buf p = (buf', 8, None) \<and> length buf' = length buf \<and>
         getPosition buf' = (p, 8, None)"
    using position_roundtrip_gen [of buf p] by blast
next
  show "putPosition (replicate 8 0) \<lparr>pos_x = 257, pos_y = 42, pos_z = - 513\<rparr> =
     ([0x00, 0x00, 0x40, 0x40, 0xab, 0xff, 0xfd, 0xff], 8, None)"
    by code_simp
next
  show "getPosition [0x00, 0x00, 0x40, 0x40, 0xab, 0xff, 0xfd, 0xff] =
     (\<lparr>pos_x = 257, pos_y = 42, pos_z = - 513\<rparr>, 8, None)"
    by code_simp
next
  assume "length buf = 8"
  then show "putPosition buf \<lparr>pos_x = 0, pos_y = 0, pos_z = 0\<rparr> = (replicate 8 0, 8, None)"
    by (simp add: putPosition_def positionLen_def putField_def PutUint64_zero)
qed

theorem position_roundtrip_witness:
  "putPosition [1, 2, 3, 4, 5, 6, 7, 8] \<lparr>pos_x = - 33554432, pos_y = 2047, pos_z = 5\<rparr> =
     ([0x80, 0x00, 0x00, 0x1f, 0xfc, 0x00, 0x00, 0x05], 8, None) \<and>
   getPosition [0x80, 0x00, 0x00, 0x1f, 0xfc, 0x00, 0x00, 0x05] =
     (\<lparr>pos_x = - 33554432, pos_y = 2047, pos_z = 5\<rparr>, 8, None) \<and>
   putPosition [1, 2, 3, 4, 5, 6, 7, 8] \<lparr>pos_x = 0, pos_y = 0, pos_z = 0\<rparr> =
     ([0, 0, 0, 0, 0, 0, 0, 0], 8, None)"
proof -
  have a: "putPosition [1, 2, 3, 4, 5, 6, 7, 8] \<lparr>pos_x = - 33554432, pos_y = 2047, pos_z = 5\<rparr> =
     ([0x80, 0x00, 0x00, 0x1f, 0xfc, 0x00, 0x00, 0x05], 8, None)"
    by code_simp
  have h: "8 \<le> length [1, 2, 3, 4, 5, 6, 7, 8 :: byte] \<and>
    - (2 ^ 25) \<le> sint (pos_x \<lparr>pos_x = - 33554432, pos_y = 2047, pos_z = 5\<rparr>) \<and>
    sint (pos_x \<lparr>pos_x = - 33554432, pos_y = 2047, pos_z = 5\<rparr>) < 2 ^ 25 \<and>
    - (2 ^ 11) \<le> sint (pos_y \<lparr>pos_x = - 33554432, pos_y = 2047, pos_z = 5\<rparr>) \<and>
    sint (pos_y \<lparr>pos_x = - 33554432, pos_y = 2047, pos_z = 5\<rparr>) < 2 ^ 11 \<and>
    - (2 ^ 25) \<le> sint (pos_z \<lparr>pos_x = - 33554432, pos_y = 2047, pos_z = 5\<rparr>) \<and>
    sint (pos_z \<lparr>pos_x = - 33554432, pos_y = 2047, pos_z = 5\<rparr>) < 2 ^ 25"
    by simp
  have l: "length [1, 2, 3, 4, 5, 6, 7, 8 :: byte] = 8" by simp
  note t = position_roundtrip [of "[1, 2, 3, 4, 5, 6, 7, 8]"
      "\<lparr>pos_x = - 33554432, pos_y = 2047, pos_z = 5\<rparr>"]
  from t h a have b: "getPosition [0x80, 0x00, 0x00, 0x1f, 0xfc, 0x00, 0x00, 0x05] =
     (\<lparr>pos_x = - 33554432, pos_y = 2047, pos_z = 5\<rparr>, 8, None)"
    by auto
  from t l have c: "putPosition [1, 2, 3, 4, 5, 6, 7, 8] \<lparr>pos_x = 0, pos_y = 0, pos_z = 0\<rparr> =
     (replicate 8 0, 8, None)"
    by blast
  have "replicate 8 (0 :: byte) = [0, 0, 0, 0, 0, 0, 0, 0]" by (simp add: eval_nat_numeral)
  with a b c show ?thesis by simp
qed

end
